theory Spec2Isabelle
  imports Complex_Main
begin

section \<open>Python values, strings and exceptions\<close>

text \<open>
  Values that cross the boundary between the manager and the provider SDKs or the
  decoded JSON of an HTTP reply.  Python floats do not occur in any control decision of
  the modelled code and are left out.
\<close>

datatype pyval =
    PNone
  | PBool bool
  | PInt int
  | PStr string
  | PList "pyval list"
  | PDict "(string \<times> pyval) list"

text \<open>Python truthiness (\<^verbatim>\<open>if x:\<close>).\<close>

fun truthy :: "pyval \<Rightarrow> bool" where
  "truthy PNone = False"
| "truthy (PBool b) = b"
| "truthy (PInt n) = (n \<noteq> 0)"
| "truthy (PStr s) = (s \<noteq> [])"
| "truthy (PList xs) = (xs \<noteq> [])"
| "truthy (PDict kvs) = (kvs \<noteq> [])"

fun type_name :: "pyval \<Rightarrow> string" where
  "type_name PNone = ''NoneType''"
| "type_name (PBool b) = ''bool''"
| "type_name (PInt n) = ''int''"
| "type_name (PStr s) = ''str''"
| "type_name (PList xs) = ''list''"
| "type_name (PDict kvs) = ''dict''"

text \<open>\<^verbatim>\<open>d.get(key, default)\<close> on a dictionary given as an association list.\<close>

definition dict_get :: "(string \<times> pyval) list \<Rightarrow> string \<Rightarrow> pyval \<Rightarrow> pyval" where
  "dict_get d k dflt = (case map_of d k of None \<Rightarrow> dflt | Some v \<Rightarrow> v)"

text \<open>
  \<^verbatim>\<open>str.lower()\<close> on ASCII letters; every keyword the code searches for is ASCII.
\<close>

definition char_lower :: "char \<Rightarrow> char" where
  "char_lower c =
     (let n = (of_char c :: nat) in if 65 \<le> n \<and> n \<le> 90 then char_of (n + 32) else c)"

definition lower :: "string \<Rightarrow> string" where
  "lower s = map char_lower s"

text \<open>\<^verbatim>\<open>needle in haystack\<close> for strings: contiguous substring search.\<close>

fun starts_with :: "string \<Rightarrow> string \<Rightarrow> bool" where
  "starts_with [] s = True"
| "starts_with (p # ps) [] = False"
| "starts_with (p # ps) (c # cs) = (p = c \<and> starts_with ps cs)"

fun contains :: "string \<Rightarrow> string \<Rightarrow> bool" where
  "contains needle [] = (needle = [])"
| "contains needle (c # cs) = (starts_with needle (c # cs) \<or> contains needle cs)"

text \<open>
  \<^verbatim>\<open>sep.join(parts)\<close>.
\<close>

fun join :: "string \<Rightarrow> string list \<Rightarrow> string" where
  "join sep [] = []"
| "join sep [x] = x"
| "join sep (x # y # ys) = x @ sep @ join sep (y # ys)"

text \<open>
  Exceptions as values.  \<open>HTTPError\<close> carries the status code of \<^verbatim>\<open>e.response\<close> and
  the text of \<^verbatim>\<open>str(e)\<close>, which the HTTP library composes; \<open>AttributeError\<close> carries the
  type name of the object and the attribute that was looked up on it.
\<close>

datatype exn =
    HTTPError nat string
  | KeyError string
  | AttributeError string string
  | ValueError string
  | PyException string

fun str_exn :: "exn \<Rightarrow> string" where
  "str_exn (HTTPError status msg) = msg"
| "str_exn (KeyError k) = [CHR 0x27] @ k @ [CHR 0x27]"
| "str_exn (AttributeError ty attr) =
     [CHR 0x27] @ ty @ [CHR 0x27] @ '' object has no attribute '' @ [CHR 0x27] @ attr @ [CHR 0x27]"
| "str_exn (ValueError msg) = msg"
| "str_exn (PyException msg) = msg"

section \<open>The data of \<^verbatim>\<open>MultiModelLLMManager\<close>\<close>

text \<open>
  One entry of \<^verbatim>\<open>self.models\<close>.  The keys \<^verbatim>\<open>fallback_models\<close> and \<^verbatim>\<open>enabled\<close> are read
  with a membership test and with \<^verbatim>\<open>.get('enabled', True)\<close>, so they are optional here.
  Credentials and SDK client objects are only handed on to the transport and are part of
  the provider oracles below.
\<close>

record model_info =
  name :: string
  provider :: string
  model :: string
  fallback_models :: "string list option"
  timeout :: nat
  enabled :: "bool option"

definition is_enabled :: "model_info \<Rightarrow> bool" where
  "is_enabled m = (case enabled m of None \<Rightarrow> True | Some b \<Rightarrow> b)"

record stats =
  success :: nat
  failures :: nat

record manager =
  models :: "model_info list"
  model_stats :: "string \<rightharpoonup> stats"

record message =
  role :: "string option"
  content :: "string option"

record request =
  messages :: "message list"
  temperature :: real
  max_tokens :: int
  fix_typos :: bool

section \<open>\<^verbatim>\<open>_messages_to_prompt\<close>\<close>

fun prompt_parts :: "message list \<Rightarrow> string list \<Rightarrow> string list" where
  "prompt_parts [] parts = parts"
| "prompt_parts (msg # msgs) parts =
     (let r = (case role msg of None \<Rightarrow> ''user'' | Some x \<Rightarrow> x);
          c = (case content msg of None \<Rightarrow> [] | Some x \<Rightarrow> x)
      in if r = ''system'' then prompt_parts msgs (parts @ [''System: '' @ c @ ''\<newline>''])
         else if r = ''user'' then prompt_parts msgs (parts @ [''User: '' @ c @ ''\<newline>''])
         else if r = ''assistant'' then prompt_parts msgs (parts @ [''Assistant: '' @ c @ ''\<newline>''])
         else prompt_parts msgs parts)"

definition messages_to_prompt :: "message list \<Rightarrow> string" where
  "messages_to_prompt msgs = join ''\<newline>'' (prompt_parts msgs [])"

text \<open>
  The flattening as the specification words it: keep the messages with one of the three
  roles, in order, each rendered behind its role label.
\<close>

definition effective_role :: "message \<Rightarrow> string" where
  "effective_role msg = (case role msg of None \<Rightarrow> ''user'' | Some x \<Rightarrow> x)"

definition known_role :: "message \<Rightarrow> bool" where
  "known_role msg =
     (effective_role msg = ''system'' \<or> effective_role msg = ''user''
      \<or> effective_role msg = ''assistant'')"

definition role_label :: "string \<Rightarrow> string" where
  "role_label r =
     (if r = ''system'' then ''System'' else if r = ''user'' then ''User''
      else if r = ''assistant'' then ''Assistant'' else [])"

definition labelled :: "message \<Rightarrow> string" where
  "labelled msg =
     role_label (effective_role msg) @ '': ''
       @ (case content msg of None \<Rightarrow> [] | Some x \<Rightarrow> x) @ ''\<newline>''"

section \<open>The Hugging Face adapter\<close>

text \<open>
  What one \<^verbatim>\<open>requests.post\<close> gives back: the status code, the text of the error that
  \<^verbatim>\<open>raise_for_status\<close> would raise for it, and what \<^verbatim>\<open>response.json()\<close> evaluates to
  (it raises when the body is not JSON).
\<close>

record response =
  status_code :: nat
  http_error_text :: string
  json :: "exn + pyval"

record payload =
  inputs :: string
  p_temperature :: real
  max_new_tokens :: int
  return_full_text :: bool

text \<open>
  The transport is an oracle: \<open>post k url body tmo\<close> is the outcome of the \<open>k\<close>-th
  \<^verbatim>\<open>requests.post\<close> (counted from 0) of one adapter invocation.  The adapter's visible
  effects are logged: every POST with its URL, and the \<^verbatim>\<open>time.sleep\<close> with its seconds.
\<close>

type_synonym transport = "nat \<Rightarrow> string \<Rightarrow> payload \<Rightarrow> nat \<Rightarrow> exn + response"

datatype hf_event = Post string | Sleep nat

fun posts_made :: "hf_event list \<Rightarrow> nat" where
  "posts_made [] = 0"
| "posts_made (Post u # es) = Suc (posts_made es)"
| "posts_made (Sleep n # es) = posts_made es"

definition raise_for_status :: "response \<Rightarrow> exn option" where
  "raise_for_status r =
     (if 400 \<le> status_code r \<and> status_code r < 600
      then Some (HTTPError (status_code r) (http_error_text r)) else None)"

text \<open>
  The test \<^verbatim>\<open>isinstance(result, dict) and result.get('error')\<close> followed by
  \<^verbatim>\<open>'loading' in error_msg.lower()\<close>; \<^verbatim>\<open>.lower()\<close> exists on strings only.
\<close>

definition is_loading :: "pyval \<Rightarrow> exn + bool" where
  "is_loading result =
     (case result of
        PDict d \<Rightarrow>
          if truthy (dict_get d ''error'' PNone)
          then (case dict_get d ''error'' (PStr []) of
                  PStr error_msg \<Rightarrow> Inr (contains ''loading'' (lower error_msg))
                | v \<Rightarrow> Inl (AttributeError (type_name v) ''lower''))
          else Inr False
      | _ \<Rightarrow> Inr False)"

text \<open>The final \<^verbatim>\<open>if\<close>/\<^verbatim>\<open>elif\<close>/\<^verbatim>\<open>else\<close> that takes the generated text out of the result.\<close>

definition extract_text :: "pyval \<Rightarrow> exn + pyval" where
  "extract_text result =
     (case result of
        PList (x # xs) \<Rightarrow>
          (case x of
             PDict d \<Rightarrow> Inr (dict_get d ''generated_text'' (PStr []))
           | _ \<Rightarrow> Inl (AttributeError (type_name x) ''get''))
      | PDict d \<Rightarrow> Inr (dict_get d ''generated_text'' (PStr []))
      | _ \<Rightarrow> Inl (ValueError ''Unexpected response format from Hugging Face''))"

text \<open>\<^verbatim>\<open>api_url\<close> and \<^verbatim>\<open>payload\<close> as the loop body builds them.\<close>

definition hf_url :: "string \<Rightarrow> string" where
  "hf_url model_name = ''https://api-inference.huggingface.co/models/'' @ model_name"

definition hf_payload :: "string \<Rightarrow> real \<Rightarrow> int \<Rightarrow> payload" where
  "hf_payload prompt temp max_toks =
     \<lparr>inputs = prompt, p_temperature = temp, max_new_tokens = max_toks,
      return_full_text = False\<rparr>"

text \<open>
  The body of the \<^verbatim>\<open>try\<close> for one model id: it returns a value, raises, or leaves
  through the \<^verbatim>\<open>continue\<close> of the 410/404 status check.
\<close>

datatype hf_try = Returned pyval | Raised exn | StatusGone

definition hf_request ::
  "transport \<Rightarrow> model_info \<Rightarrow> payload \<Rightarrow> string \<Rightarrow> hf_event list \<Rightarrow> hf_try \<times> hf_event list"
where
  "hf_request post mi body model_name tr =
     (let api_url = hf_url model_name;
          tr1 = tr @ [Post api_url]
      in case post (posts_made tr) api_url body (timeout mi) of
           Inl e \<Rightarrow> (Raised e, tr1)
         | Inr resp \<Rightarrow>
             if status_code resp = 410 \<or> status_code resp = 404 then (StatusGone, tr1)
             else (case raise_for_status resp of
                     Some e \<Rightarrow> (Raised e, tr1)
                   | None \<Rightarrow>
                      (case json resp of
                         Inl e \<Rightarrow> (Raised e, tr1)
                       | Inr result \<Rightarrow>
                          (case is_loading result of
                             Inl e \<Rightarrow> (Raised e, tr1)
                           | Inr False \<Rightarrow>
                               (case extract_text result of
                                  Inl e \<Rightarrow> (Raised e, tr1)
                                | Inr v \<Rightarrow> (Returned v, tr1))
                           | Inr True \<Rightarrow>
                               (let tr2 = tr1 @ [Sleep 5, Post api_url]
                                in case post (posts_made tr1) api_url body (timeout mi) of
                                     Inl e \<Rightarrow> (Raised e, tr2)
                                   | Inr resp2 \<Rightarrow>
                                      (case raise_for_status resp2 of
                                         Some e \<Rightarrow> (Raised e, tr2)
                                       | None \<Rightarrow>
                                          (case json resp2 of
                                             Inl e \<Rightarrow> (Raised e, tr2)
                                           | Inr result2 \<Rightarrow>
                                              (case extract_text result2 of
                                                 Inl e \<Rightarrow> (Raised e, tr2)
                                               | Inr v \<Rightarrow> (Returned v, tr2)))))))))"

text \<open>
  The two \<^verbatim>\<open>except\<close> clauses: either the exception is raised again (the model id equals
  \<^verbatim>\<open>models_to_try[-1]\<close>) or the loop goes on with \<^verbatim>\<open>last_error = str(e)\<close>.
\<close>

datatype hf_step = Done pyval | Reraise exn | TryNext string

definition hf_except :: "string list \<Rightarrow> string \<Rightarrow> exn \<Rightarrow> hf_step" where
  "hf_except models_to_try model_name e =
     (case e of
        HTTPError status msg \<Rightarrow>
          if status = 410 \<or> status = 404 then TryNext (str_exn e)
          else if model_name = last models_to_try then Reraise e
          else TryNext (str_exn e)
      | _ \<Rightarrow>
          if model_name = last models_to_try then Reraise e
          else TryNext (str_exn e))"


definition hf_step ::
  "transport \<Rightarrow> model_info \<Rightarrow> payload \<Rightarrow> string list \<Rightarrow> string \<Rightarrow> hf_event list
     \<Rightarrow> hf_step \<times> hf_event list"
where
  "hf_step post mi body models_to_try model_name tr =
     (case hf_request post mi body model_name tr of
        (Returned v, tr') \<Rightarrow> (Done v, tr')
      | (StatusGone, tr') \<Rightarrow>
          (TryNext (''Model '' @ model_name @ '' is no longer available (410 Gone)''), tr')
      | (Raised e, tr') \<Rightarrow> (hf_except models_to_try model_name e, tr'))"

fun hf_loop ::
  "transport \<Rightarrow> model_info \<Rightarrow> payload \<Rightarrow> string list \<Rightarrow> string list \<Rightarrow> string option
     \<Rightarrow> hf_event list \<Rightarrow> (exn + pyval) \<times> hf_event list"
where
  "hf_loop post mi body models_to_try [] last_err tr =
     (Inl (PyException (''All Hugging Face models failed. Last error: ''
             @ (case last_err of None \<Rightarrow> ''None'' | Some s \<Rightarrow> s))), tr)"
| "hf_loop post mi body models_to_try (model_name # rest) last_err tr =
     (case hf_step post mi body models_to_try model_name tr of
        (Done v, tr') \<Rightarrow> (Inr v, tr')
      | (Reraise e, tr') \<Rightarrow> (Inl e, tr')
      | (TryNext err, tr') \<Rightarrow> hf_loop post mi body models_to_try rest (Some err) tr')"

definition models_to_try :: "model_info \<Rightarrow> string list" where
  "models_to_try mi =
     model mi # (case fallback_models mi of None \<Rightarrow> [] | Some fs \<Rightarrow> fs)"

definition generate_with_huggingface ::
  "transport \<Rightarrow> model_info \<Rightarrow> message list \<Rightarrow> real \<Rightarrow> int \<Rightarrow> (exn + pyval) \<times> hf_event list"
where
  "generate_with_huggingface post mi msgs temp max_toks =
     (let prompt = messages_to_prompt msgs
      in hf_loop post mi (hf_payload prompt temp max_toks) (models_to_try mi)
           (models_to_try mi) None [])"


section \<open>The response normalizer as \<^verbatim>\<open>generate\<close> sees it\<close>

text \<open>
  \<^verbatim>\<open>TextCorrector.fix_llm_response\<close> returns a falsy argument unchanged and then calls
  \<^verbatim>\<open>corrected.replace(...)\<close>, a method that strings have and other values lack.  On a
  string it runs a fixed chain of substitutions that cannot raise; the chain is the
  parameter \<open>fixes\<close>.
\<close>

definition fix_llm_response :: "(string \<Rightarrow> string) \<Rightarrow> pyval \<Rightarrow> exn + pyval" where
  "fix_llm_response fixes resp =
     (if \<not> truthy resp then Inr resp
      else (case resp of
              PStr s \<Rightarrow> Inr (PStr (fixes s))
            | v \<Rightarrow> Inl (AttributeError (type_name v) ''replace'')))"

section \<open>Error classification in \<^verbatim>\<open>generate\<close>\<close>

definition is_retryable :: "string \<Rightarrow> bool" where
  "is_retryable error_str =
     list_ex (\<lambda>keyword. contains keyword error_str)
       [''rate limit'', ''429'', ''503'', ''timeout'', ''connection'',
        ''service unavailable'', ''too many requests'']"

definition is_model_unavailable :: "string \<Rightarrow> bool" where
  "is_model_unavailable error_str =
     (contains ''410'' error_str \<or> contains ''gone'' error_str \<or> contains ''404'' error_str
      \<or> contains ''all hugging face models failed'' error_str)"

text \<open>The branch of the \<^verbatim>\<open>if\<close>/\<^verbatim>\<open>elif\<close>/\<^verbatim>\<open>else\<close> that the handler takes.\<close>

datatype verdict = Retryable | PermanentlyUnavailable | Fatal

definition classify :: "string \<Rightarrow> verdict" where
  "classify error_str =
     (if is_model_unavailable error_str then PermanentlyUnavailable
      else if is_retryable error_str then Retryable
      else Fatal)"

section \<open>\<^verbatim>\<open>generate\<close>\<close>

text \<open>
  The providers are oracles, fixed for the duration of one call: what
  \<^verbatim>\<open>_generate_with_groq\<close> and \<^verbatim>\<open>_generate_with_gemini\<close> return or raise, the transport of
  the Hugging Face adapter, and the substitution chain of the normalizer.
\<close>

record env =
  groq_create :: "model_info \<Rightarrow> message list \<Rightarrow> real \<Rightarrow> int \<Rightarrow> exn + pyval"
  hf_post :: transport
  gemini_generate :: "model_info \<Rightarrow> string \<Rightarrow> real \<Rightarrow> int \<Rightarrow> exn + pyval"
  regex_fixes :: "string \<Rightarrow> string"

text \<open>
  The dispatch on \<^verbatim>\<open>provider\<close>; \<open>None\<close> is the final \<^verbatim>\<open>else: continue\<close>, where no adapter
  is called.
\<close>

definition call_provider :: "env \<Rightarrow> request \<Rightarrow> model_info \<Rightarrow> (exn + pyval) option" where
  "call_provider e req mi =
     (if provider mi = ''groq''
      then Some (groq_create e mi (messages req) (temperature req) (max_tokens req))
      else if provider mi = ''huggingface''
      then Some (fst (generate_with_huggingface (hf_post e) mi (messages req)
                        (temperature req) (max_tokens req)))
      else if provider mi = ''gemini''
      then Some (gemini_generate e mi (messages_to_prompt (messages req))
                   (temperature req) (max_tokens req))
      else None)"

text \<open>
  \<^verbatim>\<open>self.model_stats[provider]['success'] += 1\<close> and the same for \<^verbatim>\<open>'failures'\<close>; \<open>None\<close>
  is the \<^verbatim>\<open>KeyError\<close> of a provider without an entry.
\<close>

definition incr_success :: "string \<Rightarrow> (string \<rightharpoonup> stats) \<Rightarrow> (string \<rightharpoonup> stats) option" where
  "incr_success p ms =
     (case ms p of None \<Rightarrow> None | Some c \<Rightarrow> Some (ms(p \<mapsto> c\<lparr>success := success c + 1\<rparr>)))"

definition incr_failures :: "string \<Rightarrow> (string \<rightharpoonup> stats) \<Rightarrow> (string \<rightharpoonup> stats) option" where
  "incr_failures p ms =
     (case ms p of None \<Rightarrow> None | Some c \<Rightarrow> Some (ms(p \<mapsto> c\<lparr>failures := failures c + 1\<rparr>)))"

text \<open>
  What the loop of \<^verbatim>\<open>generate\<close> carries from one registry entry to the next.  \<open>events\<close>
  is the record of what the call did to the outside: \<open>Invoked i\<close> when the adapter of
  \<^verbatim>\<open>self.models[i]\<close> is called, \<open>Classified i v\<close> when the handler has classified an
  exception raised while that entry was tried.
\<close>

datatype event = Invoked nat | Classified nat verdict

record loop_state =
  ls_stats :: "string \<rightharpoonup> stats"
  attempted_models :: "string list"
  last_error :: "exn option"
  events :: "event list"

fun ev_index :: "event \<Rightarrow> nat" where
  "ev_index (Invoked i) = i"
| "ev_index (Classified i v) = i"

datatype flow = Return pyval | Raise exn | Continue

text \<open>
  The \<^verbatim>\<open>except Exception as e\<close> block.  The search for the next enabled entry in it
  only chooses the line that is printed and is left out, as are the timing and the other
  prints of \<^verbatim>\<open>generate\<close>.
\<close>

definition except_handler ::
  "nat \<Rightarrow> model_info \<Rightarrow> exn \<Rightarrow> loop_state \<Rightarrow> flow \<times> model_info \<times> loop_state"
where
  "except_handler i mi e st =
     (let error_str = lower (str_exn e)
      in case incr_failures (provider mi) (ls_stats st) of
           None \<Rightarrow> (Raise (KeyError (provider mi)), mi, st)
         | Some stats' \<Rightarrow>
             (Continue,
              if is_model_unavailable error_str then mi\<lparr>enabled := Some False\<rparr> else mi,
              st\<lparr>ls_stats := stats', last_error := Some e,
                 events := events st @ [Classified i (classify error_str)]\<rparr>))"

text \<open>One iteration of \<^verbatim>\<open>for model_info in self.models\<close>, on entry number \<open>i\<close>.\<close>

definition loop_body ::
  "env \<Rightarrow> request \<Rightarrow> nat \<Rightarrow> model_info \<Rightarrow> loop_state \<Rightarrow> flow \<times> model_info \<times> loop_state"
where
  "loop_body e req i mi st =
     (if \<not> is_enabled mi then (Continue, mi, st)
      else
        let st1 = st\<lparr>attempted_models := attempted_models st @ [name mi]\<rparr>
        in case call_provider e req mi of
             None \<Rightarrow> (Continue, mi, st1)
           | Some (Inl ex) \<Rightarrow>
               except_handler i mi ex (st1\<lparr>events := events st1 @ [Invoked i]\<rparr>)
           | Some (Inr raw_response) \<Rightarrow>
               (let st2 = st1\<lparr>events := events st1 @ [Invoked i]\<rparr>
                in case incr_success (provider mi) (ls_stats st2) of
                     None \<Rightarrow> except_handler i mi (KeyError (provider mi)) st2
                   | Some stats' \<Rightarrow>
                       (let st3 = st2\<lparr>ls_stats := stats'\<rparr>
                        in if fix_typos req \<and> truthy raw_response
                           then (case fix_llm_response (regex_fixes e) raw_response of
                                   Inl ex \<Rightarrow> except_handler i mi ex st3
                                 | Inr corrected_response \<Rightarrow>
                                     (Return corrected_response, mi, st3))
                           else (Return raw_response, mi, st3))))"

text \<open>
  The loop: \<open>passed\<close> are the entries already passed (with their flags as the loop left
  them), the list argument the entries still to come.  \<open>None\<close> as the outcome is the
  normal end of the loop, after which \<^verbatim>\<open>generate\<close> raises the exhaustion error.
\<close>

fun gen_loop ::
  "env \<Rightarrow> request \<Rightarrow> model_info list \<Rightarrow> model_info list \<Rightarrow> loop_state
     \<Rightarrow> (exn + pyval) option \<times> model_info list \<times> loop_state"
where
  "gen_loop e req passed [] st = (None, passed, st)"
| "gen_loop e req passed (mi # rest) st =
     (case loop_body e req (length passed) mi st of
        (Continue, mi', st') \<Rightarrow> gen_loop e req (passed @ [mi']) rest st'
      | (Return v, mi', st') \<Rightarrow> (Some (Inr v), passed @ mi' # rest, st')
      | (Raise ex, mi', st') \<Rightarrow> (Some (Inl ex), passed @ mi' # rest, st'))"

text \<open>
  The failure of a call: the exhaustion error, with the names in \<^verbatim>\<open>attempted_models\<close> and
  the \<^verbatim>\<open>last_error\<close> that its message is composed of, or an exception that left the loop.
\<close>

datatype failure = AllModelsFailed "string list" "exn option" | Escaped exn

record outcome =
  result :: "failure + pyval"
  after :: manager
  trace :: "event list"

definition start_state :: "manager \<Rightarrow> loop_state" where
  "start_state mgr =
     \<lparr>ls_stats = model_stats mgr, attempted_models = [], last_error = None, events = []\<rparr>"

definition generate :: "env \<Rightarrow> request \<Rightarrow> manager \<Rightarrow> outcome" where
  "generate e req mgr =
     (case gen_loop e req [] (models mgr) (start_state mgr) of
        (r, ms, st) \<Rightarrow>
          \<lparr>result = (case r of
                       None \<Rightarrow> Inl (AllModelsFailed (attempted_models st) (last_error st))
                     | Some (Inl ex) \<Rightarrow> Inl (Escaped ex)
                     | Some (Inr v) \<Rightarrow> Inr v),
           after = \<lparr>models = ms, model_stats = ls_stats st\<rparr>,
           trace = events st\<rparr>)"

text \<open>
  The exception that the adapter of an entry raises in a call, if it raises one; and the
  two updates of a provider's counters.
\<close>

definition adapter_error :: "env \<Rightarrow> request \<Rightarrow> model_info \<Rightarrow> exn option" where
  "adapter_error e req mi =
     (case call_provider e req mi of Some (Inl ex) \<Rightarrow> Some ex | _ \<Rightarrow> None)"

text \<open>The providers of the entries whose adapter is called and raises.\<close>

definition failed_providers :: "env \<Rightarrow> request \<Rightarrow> model_info list \<Rightarrow> string list" where
  "failed_providers e req ms =
     map provider (filter (\<lambda>m. is_enabled m \<and> adapter_error e req m \<noteq> None) ms)"

definition failure_counted :: "stats \<Rightarrow> stats" where
  "failure_counted c = c\<lparr>failures := failures c + 1\<rparr>"

definition success_counted :: "stats \<Rightarrow> stats" where
  "success_counted c = c\<lparr>success := success c + 1\<rparr>"

text \<open>A sequence of calls on one manager instance, each with its own oracles.\<close>

fun generate_seq :: "(env \<times> request) list \<Rightarrow> manager \<Rightarrow> outcome list" where
  "generate_seq [] mgr = []"
| "generate_seq ((e, req) # calls) mgr =
     (let out = generate e req mgr in out # generate_seq calls (after out))"

text \<open>The manager that a sequence of calls leaves behind.\<close>

definition final_manager :: "manager \<Rightarrow> outcome list \<Rightarrow> manager" where
  "final_manager mgr outs = (if outs = [] then mgr else after (last outs))"

text \<open>
  The adapters are declared to return \<^verbatim>\<open>str\<close>.  \<open>returns_text_only\<close> says of an entry, in
  a call, that its adapter raises or returns a string.
\<close>

definition is_text :: "pyval \<Rightarrow> bool" where
  "is_text v = (case v of PStr s \<Rightarrow> True | _ \<Rightarrow> False)"

definition returns_text_only :: "env \<Rightarrow> request \<Rightarrow> model_info \<Rightarrow> bool" where
  "returns_text_only e req mi =
     (case call_provider e req mi of Some (Inr v) \<Rightarrow> is_text v | _ \<Rightarrow> True)"

text \<open>
  The sum of the two counters of a provider, and the number of adapter invocations in a
  list of events that go to entries with a given provider key (\<open>keys\<close> are the provider
  keys of the registry, by position).
\<close>

definition tally :: "stats option \<Rightarrow> nat" where
  "tally c = (case c of None \<Rightarrow> 0 | Some x \<Rightarrow> success x + failures x)"

fun invocations :: "string list \<Rightarrow> string \<Rightarrow> event list \<Rightarrow> nat" where
  "invocations keys q [] = 0"
| "invocations keys q (Invoked i # evs) =
     (if i < length keys \<and> keys ! i = q then 1 else 0) + invocations keys q evs"
| "invocations keys q (Classified i v # evs) = invocations keys q evs"

text \<open>
  The registry that \<^verbatim>\<open>_initialize_models\<close> builds when all three providers are configured.
  Every entry has its counters, and the provider keys are distinct.
\<close>

definition groq_info :: model_info where
  "groq_info =
     \<lparr>name = ''Groq Llama 3.3 70B'', provider = ''groq'', model = ''llama-3.3-70b-versatile'',
      fallback_models = None, timeout = 30, enabled = Some True\<rparr>"

definition hf_models :: "string list" where
  "hf_models =
     [''mistralai/Mistral-7B-Instruct-v0.3'', ''mistralai/Mixtral-8x7B-Instruct-v0.1'',
      ''meta-llama/Llama-3-8b-instruct'', ''google/flan-t5-large'']"

definition hf_info :: model_info where
  "hf_info =
     \<lparr>name = ''Hugging Face Mistral 7B'', provider = ''huggingface'', model = hd hf_models,
      fallback_models = Some (tl hf_models), timeout = 45, enabled = Some True\<rparr>"

definition gemini_info :: model_info where
  "gemini_info =
     \<lparr>name = ''Google Gemini Pro'', provider = ''gemini'', model = ''gemini-pro'',
      fallback_models = None, timeout = 45, enabled = Some True\<rparr>"

definition zero_stats :: stats where
  "zero_stats = \<lparr>success = 0, failures = 0\<rparr>"

definition initial_manager :: manager where
  "initial_manager =
     \<lparr>models = [groq_info, hf_info, gemini_info],
      model_stats = [''groq'' \<mapsto> zero_stats, ''huggingface'' \<mapsto> zero_stats,
                     ''gemini'' \<mapsto> zero_stats]\<rparr>"

section \<open>Concrete calls\<close>

text \<open>The inputs on which the results below are evaluated.\<close>

definition req_default :: request where
  "req_default =
     \<lparr>messages = [\<lparr>role = Some ''user'', content = Some ''What is the capital of France?''\<rparr>],
      temperature = 0.7, max_tokens = 1024, fix_typos = True\<rparr>"

definition ok_response :: "pyval \<Rightarrow> response" where
  "ok_response body = \<lparr>status_code = 200, http_error_text = [], json = Inr body\<rparr>"

definition generated :: "pyval \<Rightarrow> pyval" where
  "generated v = PList [PDict [(''generated_text'', v)]]"

text \<open>Groq rejects the key; Hugging Face answers.\<close>

definition env_auth_failure :: env where
  "env_auth_failure =
     \<lparr>groq_create = (\<lambda>mi msgs t k. Inl (PyException ''Error code: 401 - Invalid API Key'')),
      hf_post = (\<lambda>k url body tmo. Inr (ok_response (generated (PStr ''Paris.'')))),
      gemini_generate = (\<lambda>mi prompt t k. Inr (PStr ''Paris'')),
      regex_fixes = (\<lambda>s. s)\<rparr>"

text \<open>
  Every POST is answered with status 200 and an error body that reports the model as
  loading.
\<close>

definition loading_body :: pyval where
  "loading_body =
     PDict [(''error'', PStr ''Model mistralai/Mistral-7B-Instruct-v0.3 is currently loading''),
            (''estimated_time'', PInt 20)]"

definition post_still_loading :: transport where
  "post_still_loading = (\<lambda>k url body tmo. Inr (ok_response loading_body))"

definition env_still_loading :: env where
  "env_still_loading =
     \<lparr>groq_create = (\<lambda>mi msgs t k. Inl (PyException ''Error code: 429 - Rate limit reached'')),
      hf_post = post_still_loading,
      gemini_generate = (\<lambda>mi prompt t k. Inr (PStr ''Paris'')),
      regex_fixes = (\<lambda>s. s)\<rparr>"

definition hf_only_manager :: manager where
  "hf_only_manager = \<lparr>models = [hf_info], model_stats = [''huggingface'' \<mapsto> zero_stats]\<rparr>"

text \<open>Groq is rate limited; Hugging Face answers.\<close>

definition env_rate_limited :: env where
  "env_rate_limited =
     \<lparr>groq_create = (\<lambda>mi msgs t k. Inl (PyException ''Error code: 429 - Rate limit reached'')),
      hf_post = (\<lambda>k url body tmo.
                  Inr (ok_response (generated (PStr ''Paris is the capital of France.'')))),
      gemini_generate = (\<lambda>mi prompt t k. Inr (PStr ''Paris'')),
      regex_fixes = (\<lambda>s. s)\<rparr>"

text \<open>All three providers fail with transient errors.\<close>

definition env_all_transient :: env where
  "env_all_transient =
     \<lparr>groq_create = (\<lambda>mi msgs t k. Inl (PyException ''Error code: 429 - Rate limit reached'')),
      hf_post = (\<lambda>k url body tmo. Inl (PyException ''Read timed out. (read timeout=45)'')),
      gemini_generate = (\<lambda>mi prompt t k. Inl (PyException ''503 Service Unavailable'')),
      regex_fixes = (\<lambda>s. s)\<rparr>"

text \<open>Groq is rate limited, every model id of Hugging Face is answered with 404, Gemini answers.\<close>

definition post_all_gone :: transport where
  "post_all_gone =
     (\<lambda>k url body tmo.
        Inr \<lparr>status_code = 404, http_error_text = ''404 Client Error: Not Found for url'',
             json = Inr (PDict [(''error'', PStr ''Not Found'')])\<rparr>)"


definition env_hf_gone :: env where
  "env_hf_gone =
     \<lparr>groq_create = (\<lambda>mi msgs t k. Inl (PyException ''Error code: 429 - Rate limit reached'')),
      hf_post = post_all_gone,
      gemini_generate = (\<lambda>mi prompt t k. Inr (PStr ''Paris'')),
      regex_fixes = (\<lambda>s. s)\<rparr>"

section \<open>Evaluation\<close>

text \<open>
  Lower-casing a character literal, bit by bit; the form in which the simplifier evaluates
  \<open>lower\<close> on a concrete string.
\<close>

lemma char_lower_bits:
  "char_lower (Char b0 b1 b2 b3 b4 b5 b6 b7) =
     (if \<not> b7 \<and> b6 \<and> \<not> b5 \<and> (b0 \<or> b1 \<or> b2 \<or> b3 \<or> b4)
         \<and> \<not> (b4 \<and> b3 \<and> (b2 \<or> (b1 \<and> b0)))
      then Char b0 b1 b2 b3 b4 True b6 b7 else Char b0 b1 b2 b3 b4 b5 b6 b7)"
  by (cases b0; cases b1; cases b2; cases b3; cases b4; cases b5; cases b6; cases b7)
     (simp_all add: char_lower_def char_of_def bit_Suc_0_iff)

text \<open>The definitions that evaluation on a concrete call unfolds.\<close>

lemmas string_defs = lower_def char_lower_bits is_model_unavailable_def is_retryable_def classify_def
lemmas registry_defs = initial_manager_def groq_info_def hf_info_def gemini_info_def hf_models_def zero_stats_def
lemmas hf_defs = generate_with_huggingface_def models_to_try_def hf_step_def hf_request_def
  hf_url_def hf_payload_def
  hf_except_def raise_for_status_def is_loading_def extract_text_def dict_get_def Let_def
lemmas gen_defs = generate_def start_state_def loop_body_def call_provider_def is_enabled_def except_handler_def
  incr_success_def incr_failures_def fix_llm_response_def

section \<open>Flattening messages into a prompt\<close>

lemma prompt_parts_acc:
  "prompt_parts msgs parts = parts @ map labelled (filter known_role msgs)"
  by (induction msgs arbitrary: parts)
     (auto simp: known_role_def effective_role_def labelled_def role_label_def Let_def
           split: option.splits)

text \<open>
  C10.  The prompt is made of the messages whose role (\<open>user\<close> when the field is absent)
  is \<open>system\<close>, \<open>user\<close> or \<open>assistant\<close>, in their original order, each rendered as its
  role label, a colon, the content and a newline, and joined by newlines.  Messages with
  any other role leave no mark in the prompt.
\<close>

theorem messages_to_prompt_keeps_known_roles:
  "messages_to_prompt msgs = join ''\<newline>'' (map labelled (filter known_role msgs))"
  by (simp add: messages_to_prompt_def prompt_parts_acc)

section \<open>Classification\<close>

text \<open>
  C9.  An error text that matches an unavailable signal and a retryable signal is
  classified as permanently unavailable: the handler takes the first branch, records the
  failure and sets the entry's \<open>enabled\<close> flag to false.
\<close>

theorem unavailable_takes_precedence:
  assumes "is_model_unavailable (lower (str_exn ex))"
    and "is_retryable (lower (str_exn ex))"
    and "ls_stats st (provider mi) = Some c"
  shows "classify (lower (str_exn ex)) = PermanentlyUnavailable \<and>
         except_handler i mi ex st =
           (Continue, mi\<lparr>enabled := Some False\<rparr>,
            st\<lparr>ls_stats := (ls_stats st)(provider mi \<mapsto> c\<lparr>failures := failures c + 1\<rparr>),
               last_error := Some ex,
               events := events st @ [Classified i PermanentlyUnavailable]\<rparr>) \<and>
         \<not> is_enabled (mi\<lparr>enabled := Some False\<rparr>)"
  using assms by (simp add: classify_def except_handler_def incr_failures_def is_enabled_def)

theorem unavailable_takes_precedence_witness:
  "is_model_unavailable (lower (str_exn (PyException ''404 Not Found: Connection timeout''))) \<and>
   is_retryable (lower (str_exn (PyException ''404 Not Found: Connection timeout''))) \<and>
   fst (snd (except_handler 1 hf_info (PyException ''404 Not Found: Connection timeout'')
               (start_state initial_manager))) = hf_info\<lparr>enabled := Some False\<rparr>"
proof -
  let ?ex = "PyException ''404 Not Found: Connection timeout''"
  have u: "is_model_unavailable (lower (str_exn ?ex))"
    by (simp add: string_defs)
  have r: "is_retryable (lower (str_exn ?ex))"
    by (simp add: string_defs)
  have s: "ls_stats (start_state initial_manager) (provider hf_info) = Some zero_stats"
    by (simp add: start_state_def registry_defs)
  show ?thesis
    using unavailable_takes_precedence [OF u r s, of 1] u r by simp
qed

text \<open>
  C8.  An error that matches neither the retryable nor the unavailable signals does not
  end the call: the failure is counted, the entry stays as it is (and so enabled), and
  the loop goes on with the entries that follow.
\<close>

theorem fatal_error_advances:
  assumes "is_enabled mi"
    and "call_provider e req mi = Some (Inl ex)"
    and "\<not> is_retryable (lower (str_exn ex))"
    and "\<not> is_model_unavailable (lower (str_exn ex))"
    and "ls_stats st (provider mi) = Some c"
  shows "gen_loop e req passed (mi # rest) st =
         gen_loop e req (passed @ [mi]) rest
           (st\<lparr>attempted_models := attempted_models st @ [name mi],
               ls_stats := (ls_stats st)(provider mi \<mapsto> c\<lparr>failures := failures c + 1\<rparr>),
               last_error := Some ex,
               events := events st @ [Invoked (length passed), Classified (length passed) Fatal]\<rparr>)"
  using assms
  by (simp add: loop_body_def except_handler_def incr_failures_def classify_def)

theorem fatal_error_advances_witness:
  "is_enabled groq_info \<and>
   call_provider env_auth_failure req_default groq_info
     = Some (Inl (PyException ''Error code: 401 - Invalid API Key'')) \<and>
   classify (lower ''Error code: 401 - Invalid API Key'') = Fatal \<and>
   fst (gen_loop env_auth_failure req_default [] (groq_info # [hf_info, gemini_info])
          (start_state initial_manager)) = Some (Inr (PStr ''Paris.''))"
proof -
  let ?ex = "PyException ''Error code: 401 - Invalid API Key''"
  let ?st = "start_state initial_manager"
  have en: "is_enabled groq_info"
    by (simp add: is_enabled_def groq_info_def)
  have cp: "call_provider env_auth_failure req_default groq_info = Some (Inl ?ex)"
    by (simp add: call_provider_def env_auth_failure_def groq_info_def)
  have nr: "\<not> is_retryable (lower (str_exn ?ex))"
    by (simp add: string_defs)
  have nu: "\<not> is_model_unavailable (lower (str_exn ?ex))"
    by (simp add: string_defs)
  have s: "ls_stats ?st (provider groq_info) = Some zero_stats"
    by (simp add: start_state_def registry_defs)
  have cl: "classify (lower ''Error code: 401 - Invalid API Key'') = Fatal"
    by (simp add: string_defs)
  have rest: "fst (gen_loop env_auth_failure req_default ([] @ [groq_info]) [hf_info, gemini_info]
           (?st\<lparr>attempted_models := attempted_models ?st @ [name groq_info],
               ls_stats := (ls_stats ?st)(provider groq_info \<mapsto> zero_stats\<lparr>failures := failures zero_stats + 1\<rparr>),
               last_error := Some ?ex,
               events := events ?st @ [Invoked (length ([]::model_info list)), Classified (length ([]::model_info list)) Fatal]\<rparr>))
        = Some (Inr (PStr ''Paris.''))"
    by (simp add: registry_defs gen_defs hf_defs env_auth_failure_def
          req_default_def ok_response_def generated_def)
  show ?thesis
    using fatal_error_advances [OF en cp nr nu s, of "[]" "[hf_info, gemini_info]"] en cp cl rest
    by simp
qed

section \<open>The warm-up retry\<close>

text \<open>
  C6.  When the service keeps answering with status 200 and a body that reports the model
  as loading, the adapter posts, sleeps five seconds, posts once more, and then returns
  the empty string as the generated text instead of raising; \<^verbatim>\<open>generate\<close> returns it and
  counts a success for the provider.
\<close>

theorem still_loading_returned_as_text:
  "generate_with_huggingface post_still_loading hf_info (messages req_default) 0.7 1024 =
     (Inr (PStr []),
      [Post ''https://api-inference.huggingface.co/models/mistralai/Mistral-7B-Instruct-v0.3'',
       Sleep 5,
       Post ''https://api-inference.huggingface.co/models/mistralai/Mistral-7B-Instruct-v0.3'']) \<and>
   result (generate env_still_loading req_default hf_only_manager) = Inr (PStr []) \<and>
   model_stats (after (generate env_still_loading req_default hf_only_manager)) ''huggingface''
     = Some \<lparr>success = 1, failures = 0\<rparr>"
  by (simp add: hf_defs gen_defs hf_info_def hf_models_def post_still_loading_def ok_response_def
        loading_body_def lower_def char_lower_bits env_still_loading_def req_default_def
        hf_only_manager_def zero_stats_def)

section \<open>The fallback loop\<close>

text \<open>One iteration, by what happens to the entry.\<close>

lemma loop_body_disabled:
  "\<not> is_enabled mi \<Longrightarrow> loop_body e req i mi st = (Continue, mi, st)"
  by (simp add: loop_body_def)

lemma loop_body_skipped:
  "is_enabled mi \<Longrightarrow> call_provider e req mi = None \<Longrightarrow>
   loop_body e req i mi st =
     (Continue, mi, st\<lparr>attempted_models := attempted_models st @ [name mi]\<rparr>)"
  by (simp add: loop_body_def)

lemma loop_body_failed:
  "is_enabled mi \<Longrightarrow> call_provider e req mi = Some (Inl ex) \<Longrightarrow>
   ls_stats st (provider mi) = Some c \<Longrightarrow>
   loop_body e req i mi st =
     (Continue,
      if is_model_unavailable (lower (str_exn ex)) then mi\<lparr>enabled := Some False\<rparr> else mi,
      st\<lparr>attempted_models := attempted_models st @ [name mi],
         ls_stats := (ls_stats st)(provider mi \<mapsto> failure_counted c),
         last_error := Some ex,
         events := events st @ [Invoked i, Classified i (classify (lower (str_exn ex)))]\<rparr>)"
  by (simp add: loop_body_def except_handler_def incr_failures_def failure_counted_def)

lemma loop_body_text:
  "is_enabled mi \<Longrightarrow> call_provider e req mi = Some (Inr (PStr text)) \<Longrightarrow>
   ls_stats st (provider mi) = Some c \<Longrightarrow>
   loop_body e req i mi st =
     (Return (PStr (if fix_typos req \<and> text \<noteq> [] then regex_fixes e text else text)),
      mi,
      st\<lparr>attempted_models := attempted_models st @ [name mi],
         events := events st @ [Invoked i],
         ls_stats := (ls_stats st)(provider mi \<mapsto> success_counted c)\<rparr>)"
  by (simp add: loop_body_def incr_success_def success_counted_def fix_llm_response_def Let_def)

text \<open>When every enabled entry raises, the loop runs to its end.\<close>

lemma gen_loop_all_fail:
  assumes "\<forall>mi\<in>set todo. ls_stats st (provider mi) \<noteq> None"
    and "\<forall>mi\<in>set todo. is_enabled mi \<longrightarrow> (\<exists>ex. call_provider e req mi = Some (Inl ex))"
  shows "\<exists>ms st'. gen_loop e req passed todo st = (None, ms, st') \<and>
           attempted_models st' = attempted_models st @ map name (filter is_enabled todo) \<and>
           last_error st' =
             (if filter is_enabled todo = [] then last_error st
              else adapter_error e req (last (filter is_enabled todo)))"
  using assms
proof (induction todo arbitrary: passed st)
  case Nil
  then show ?case by simp
next
  case (Cons mi rest)
  show ?case
  proof (cases "is_enabled mi")
    case False
    with Cons.prems have "\<forall>m\<in>set rest. ls_stats st (provider m) \<noteq> None"
      and "\<forall>m\<in>set rest. is_enabled m \<longrightarrow> (\<exists>ex. call_provider e req m = Some (Inl ex))"
      by simp_all
    from Cons.IH [OF this, of "passed @ [mi]"] False show ?thesis
      by (auto simp add: loop_body_disabled)
  next
    case True
    with Cons.prems obtain ex c where ex: "call_provider e req mi = Some (Inl ex)"
      and c: "ls_stats st (provider mi) = Some c"
      by auto
    define mi' where "mi' = (if is_model_unavailable (lower (str_exn ex))
      then mi\<lparr>enabled := Some False\<rparr> else mi)"
    define st1 where "st1 = st\<lparr>attempted_models := attempted_models st @ [name mi],
         ls_stats := (ls_stats st)(provider mi \<mapsto> failure_counted c),
         last_error := Some ex,
         events := events st @ [Invoked (length passed), Classified (length passed) (classify (lower (str_exn ex)))]\<rparr>"
    have body: "loop_body e req (length passed) mi st = (Continue, mi', st1)"
      unfolding mi'_def st1_def by (rule loop_body_failed [OF True ex c])
    have "\<forall>m\<in>set rest. ls_stats st1 (provider m) \<noteq> None"
      using Cons.prems(1) by (simp add: st1_def)
    moreover have "\<forall>m\<in>set rest. is_enabled m \<longrightarrow> (\<exists>ex. call_provider e req m = Some (Inl ex))"
      using Cons.prems(2) by simp
    ultimately obtain ms st' where
      run: "gen_loop e req (passed @ [mi']) rest st1 = (None, ms, st')"
      and att: "attempted_models st' = attempted_models st1 @ map name (filter is_enabled rest)"
      and le: "last_error st' = (if filter is_enabled rest = [] then last_error st1
              else adapter_error e req (last (filter is_enabled rest)))"
      using Cons.IH [of st1 "passed @ [mi']"] by blast
    have "adapter_error e req mi = Some ex"
      by (simp add: adapter_error_def ex)
    then show ?thesis
      using True body run att le by (simp add: st1_def)
  qed
qed

text \<open>
  C3.  When the adapter of every enabled entry raises, the call ends in the exhaustion
  error.  Its list of attempted names is the list of the names of the entries that were
  enabled when the call started, in registry order (so it has as many elements as there
  were enabled entries), and its last error is the exception raised by the adapter of the
  last enabled entry; with no enabled entry the list is empty and there is no last error.
\<close>

theorem exhaustion_lists_enabled_providers:
  assumes "\<forall>mi\<in>set (models mgr). model_stats mgr (provider mi) \<noteq> None"
    and "\<forall>mi\<in>set (models mgr). is_enabled mi \<longrightarrow> (\<exists>ex. call_provider e req mi = Some (Inl ex))"
  shows "result (generate e req mgr) =
           Inl (AllModelsFailed (map name (filter is_enabled (models mgr)))
                  (if filter is_enabled (models mgr) = [] then None
                   else adapter_error e req (last (filter is_enabled (models mgr)))))"
proof -
  have "\<forall>mi\<in>set (models mgr). ls_stats (start_state mgr) (provider mi) \<noteq> None"
    using assms(1) by (simp add: start_state_def)
  from gen_loop_all_fail [OF this assms(2), of "[]"]
  obtain ms st' where "gen_loop e req [] (models mgr) (start_state mgr) = (None, ms, st')"
    and "attempted_models st' = map name (filter is_enabled (models mgr))"
    and "last_error st' = (if filter is_enabled (models mgr) = [] then None
              else adapter_error e req (last (filter is_enabled (models mgr))))"
    by (auto simp: start_state_def)
  then show ?thesis
    by (simp add: generate_def)
qed

theorem exhaustion_lists_enabled_providers_witness:
  "filter is_enabled (models initial_manager) = [groq_info, hf_info, gemini_info] \<and>
   adapter_error env_all_transient req_default groq_info
     = Some (PyException ''Error code: 429 - Rate limit reached'') \<and>
   adapter_error env_all_transient req_default hf_info
     = Some (PyException ''Read timed out. (read timeout=45)'') \<and>
   adapter_error env_all_transient req_default gemini_info
     = Some (PyException ''503 Service Unavailable'') \<and>
   result (generate env_all_transient req_default initial_manager) =
     Inl (AllModelsFailed [''Groq Llama 3.3 70B'', ''Hugging Face Mistral 7B'', ''Google Gemini Pro'']
            (Some (PyException ''503 Service Unavailable'')))"
proof -
  have s: "\<forall>mi\<in>set (models initial_manager). model_stats initial_manager (provider mi) \<noteq> None"
    by (simp add: registry_defs)
  have f: "\<forall>mi\<in>set (models initial_manager). is_enabled mi \<longrightarrow>
       (\<exists>ex. call_provider env_all_transient req_default mi = Some (Inl ex))"
    by (simp add: registry_defs call_provider_def env_all_transient_def hf_defs req_default_def)
  have en: "filter is_enabled (models initial_manager) = [groq_info, hf_info, gemini_info]"
    by (simp add: initial_manager_def is_enabled_def groq_info_def hf_info_def gemini_info_def)
  have le: "adapter_error env_all_transient req_default gemini_info
              = Some (PyException ''503 Service Unavailable'')"
    by (simp add: adapter_error_def call_provider_def gemini_info_def env_all_transient_def)
  have nm: "name groq_info = ''Groq Llama 3.3 70B''" "name hf_info = ''Hugging Face Mistral 7B''"
    "name gemini_info = ''Google Gemini Pro''"
    by (simp_all add: groq_info_def hf_info_def gemini_info_def)
  have lg: "adapter_error env_all_transient req_default groq_info
              = Some (PyException ''Error code: 429 - Rate limit reached'')"
    by (simp add: adapter_error_def call_provider_def groq_info_def env_all_transient_def)
  have lh: "adapter_error env_all_transient req_default hf_info
              = Some (PyException ''Read timed out. (read timeout=45)'')"
    by (simp add: adapter_error_def call_provider_def hf_info_def hf_models_def
          env_all_transient_def hf_defs)
  show ?thesis
    using exhaustion_lists_enabled_providers [OF s f] en lg lh by (simp add: le nm)
qed

text \<open>Distinct provider keys, split around one entry.\<close>

lemma distinct_split_after:
  assumes "distinct (map f (pre @ p # post))" and "x \<in> set post"
  shows "f x \<noteq> f p \<and> f x \<notin> f ` set pre"
proof -
  have in_post: "f x \<in> f ` set post" using assms(2) by (rule imageI)
  have p: "f p \<notin> f ` set post" and disj: "f ` set pre \<inter> f ` set post = {}"
    using assms(1) by simp_all
  have "f x \<noteq> f p"
  proof
    assume "f x = f p"
    with in_post p show False by simp
  qed
  moreover have "f x \<notin> f ` set pre"
  proof
    assume "f x \<in> f ` set pre"
    with in_post have "f x \<in> f ` set pre \<inter> f ` set post" by (rule IntI[rotated])
    with disj show False by simp
  qed
  ultimately show ?thesis by (rule conjI)
qed
lemma distinct_split_before:
  assumes "distinct (map f (pre @ p # post))" and "x \<in> set pre"
  shows "f x \<noteq> f p"
proof
  assume eq: "f x = f p"
  have "f x \<in> f ` set pre" using assms(2) by (rule imageI)
  moreover have "f p \<notin> f ` set pre"
    using assms(1) by simp
  ultimately show False using eq by simp
qed


lemma not_failed_provider:
  "q \<notin> provider ` set ms \<Longrightarrow> q \<notin> set (failed_providers e req ms)"
  by (auto simp: failed_providers_def)

text \<open>
  A run of entries of which none returns a value is passed over; the failure counter of
  each provider that was called goes up by one, and nothing else changes in the counters.
\<close>

lemma gen_loop_failing_prefix:
  assumes "\<forall>m\<in>set pre. ls_stats st (provider m) \<noteq> None"
    and "\<forall>m\<in>set pre. is_enabled m \<longrightarrow> (\<forall>v. call_provider e req m \<noteq> Some (Inr v))"
    and "distinct (map provider pre)"
  shows "\<exists>pre' st1 new.
           gen_loop e req passed (pre @ rest) st = gen_loop e req (passed @ pre') rest st1 \<and>
           length pre' = length pre \<and>
           events st1 = events st @ new \<and>
           (\<forall>ev\<in>set new. ev_index ev < length passed + length pre) \<and>
           (\<forall>q. ls_stats st1 q =
                  (if q \<in> set (failed_providers e req pre)
                   then map_option failure_counted (ls_stats st q) else ls_stats st q))"
  using assms
proof (induction pre arbitrary: passed st)
  case Nil
  show ?case
    by (rule exI [of _ "[]"], rule exI [of _ st], rule exI [of _ "[]"])
       (simp add: failed_providers_def)
next
  case (Cons m pre2)
  have d2: "distinct (map provider pre2)" and notin: "provider m \<notin> provider ` set pre2"
    using Cons.prems(3) by simp_all
  have nf: "provider m \<notin> set (failed_providers e req pre2)"
    using notin by (rule not_failed_provider)
  have ns2: "\<forall>x\<in>set pre2. is_enabled x \<longrightarrow> (\<forall>v. call_provider e req x \<noteq> Some (Inr v))"
    using Cons.prems(2) by simp
  consider (off) "\<not> is_enabled m"
    | (skip) "is_enabled m" "call_provider e req m = None"
    | (fail) ex where "is_enabled m" "call_provider e req m = Some (Inl ex)"
  proof (cases "is_enabled m")
    case False
    then show ?thesis using off by blast
  next
    case True
    show ?thesis
    proof (cases "call_provider e req m")
      case None
      with True show ?thesis using skip by blast
    next
      case (Some r)
      with True Cons.prems(2) obtain ex where "r = Inl ex"
        by (cases r) auto
      with True Some show ?thesis using fail by blast
    qed
  qed
  then show ?case
  proof cases
    case off
    have s2: "\<forall>x\<in>set pre2. ls_stats st (provider x) \<noteq> None"
      using Cons.prems(1) by simp
    from Cons.IH [OF s2 ns2 d2, of "passed @ [m]"]
    obtain pre' st1 new where
      run: "gen_loop e req (passed @ [m]) (pre2 @ rest) st = gen_loop e req ((passed @ [m]) @ pre') rest st1"
      and len: "length pre' = length pre2"
      and ev: "events st1 = events st @ new"
      and idx: "\<forall>ev\<in>set new. ev_index ev < length (passed @ [m]) + length pre2"
      and stq: "\<forall>q. ls_stats st1 q =
                  (if q \<in> set (failed_providers e req pre2)
                   then map_option failure_counted (ls_stats st q) else ls_stats st q)"
      by blast
    have fp: "failed_providers e req (m # pre2) = failed_providers e req pre2"
      using off by (simp add: failed_providers_def)
    show ?thesis
      by (rule exI [of _ "m # pre'"], rule exI [of _ st1], rule exI [of _ new])
         (use off run len ev idx stq fp in \<open>simp add: loop_body_disabled\<close>)
  next
    case skip
    define st0 where "st0 = st\<lparr>attempted_models := attempted_models st @ [name m]\<rparr>"
    have body: "loop_body e req (length passed) m st = (Continue, m, st0)"
      unfolding st0_def by (rule loop_body_skipped [OF skip])
    have s2: "\<forall>x\<in>set pre2. ls_stats st0 (provider x) \<noteq> None"
      using Cons.prems(1) by (simp add: st0_def)
    from Cons.IH [OF s2 ns2 d2, of "passed @ [m]"]
    obtain pre' st1 new where
      run: "gen_loop e req (passed @ [m]) (pre2 @ rest) st0 = gen_loop e req ((passed @ [m]) @ pre') rest st1"
      and len: "length pre' = length pre2"
      and ev: "events st1 = events st0 @ new"
      and idx: "\<forall>ev\<in>set new. ev_index ev < length (passed @ [m]) + length pre2"
      and stq: "\<forall>q. ls_stats st1 q =
                  (if q \<in> set (failed_providers e req pre2)
                   then map_option failure_counted (ls_stats st0 q) else ls_stats st0 q)"
      by blast
    have fp: "failed_providers e req (m # pre2) = failed_providers e req pre2"
      using skip by (simp add: failed_providers_def adapter_error_def)
    show ?thesis
      by (rule exI [of _ "m # pre'"], rule exI [of _ st1], rule exI [of _ new])
         (use body run len ev idx stq fp in \<open>simp add: st0_def\<close>)
  next
    case fail
    from Cons.prems(1) obtain c where c: "ls_stats st (provider m) = Some c"
      by auto
    define m' where "m' = (if is_model_unavailable (lower (str_exn ex))
      then m\<lparr>enabled := Some False\<rparr> else m)"
    define new0 where "new0 = [Invoked (length passed),
       Classified (length passed) (classify (lower (str_exn ex)))]"
    define st0 where "st0 = st\<lparr>attempted_models := attempted_models st @ [name m],
         ls_stats := (ls_stats st)(provider m \<mapsto> failure_counted c),
         last_error := Some ex,
         events := events st @ new0\<rparr>"
    have body: "loop_body e req (length passed) m st = (Continue, m', st0)"
      unfolding st0_def m'_def new0_def by (rule loop_body_failed [OF fail c])
    have s2: "\<forall>x\<in>set pre2. ls_stats st0 (provider x) \<noteq> None"
      using Cons.prems(1) by (simp add: st0_def)
    from Cons.IH [OF s2 ns2 d2, of "passed @ [m']"]
    obtain pre' st1 new where
      run: "gen_loop e req (passed @ [m']) (pre2 @ rest) st0 = gen_loop e req ((passed @ [m']) @ pre') rest st1"
      and len: "length pre' = length pre2"
      and ev: "events st1 = events st0 @ new"
      and idx: "\<forall>ev\<in>set new. ev_index ev < length (passed @ [m']) + length pre2"
      and stq: "\<forall>q. ls_stats st1 q =
                  (if q \<in> set (failed_providers e req pre2)
                   then map_option failure_counted (ls_stats st0 q) else ls_stats st0 q)"
      by blast
    have fp: "failed_providers e req (m # pre2) = provider m # failed_providers e req pre2"
      using fail by (simp add: failed_providers_def adapter_error_def)
    have stq': "\<forall>q. ls_stats st1 q =
                  (if q \<in> set (failed_providers e req (m # pre2))
                   then map_option failure_counted (ls_stats st q) else ls_stats st q)"
      using stq nf c by (auto simp: fp st0_def)
    have idx': "\<forall>ev\<in>set (new0 @ new). ev_index ev < length passed + length (m # pre2)"
      using idx by (auto simp: new0_def)
    show ?thesis
      by (rule exI [of _ "m' # pre'"], rule exI [of _ st1], rule exI [of _ "new0 @ new"])
         (use body run len ev idx' stq' in \<open>simp add: st0_def\<close>)
  qed
qed

text \<open>
  C1.  In a registry with distinct provider keys, let \<open>p\<close> be the first enabled entry
  whose adapter returns, and let it return a text.  Then the call returns that text (run
  through the normalizer's substitutions when \<open>fix_typos\<close> is set and the text is not
  empty); every entry before \<open>p\<close> whose adapter was called and raised has its failure
  counter incremented by one; \<open>p\<close> has its success counter incremented by one; the
  counters of the entries after \<open>p\<close> are unchanged, and no adapter of an entry after \<open>p\<close>
  is called.
\<close>

theorem first_success_is_returned:
  assumes reg: "models mgr = pre @ p # post"
    and st: "\<forall>mi\<in>set (models mgr). model_stats mgr (provider mi) \<noteq> None"
    and dist: "distinct (map provider (models mgr))"
    and higher: "\<forall>mi\<in>set pre. is_enabled mi \<longrightarrow> (\<forall>v. call_provider e req mi \<noteq> Some (Inr v))"
    and en: "is_enabled p"
    and ok: "call_provider e req p = Some (Inr (PStr text))"
  shows "result (generate e req mgr) =
           Inr (PStr (if fix_typos req \<and> text \<noteq> [] then regex_fixes e text else text)) \<and>
         (\<forall>mi\<in>set pre. is_enabled mi \<and> adapter_error e req mi \<noteq> None \<longrightarrow>
            model_stats (after (generate e req mgr)) (provider mi)
              = map_option failure_counted (model_stats mgr (provider mi))) \<and>
         model_stats (after (generate e req mgr)) (provider p)
           = map_option success_counted (model_stats mgr (provider p)) \<and>
         (\<forall>mi\<in>set post.
            model_stats (after (generate e req mgr)) (provider mi) = model_stats mgr (provider mi)) \<and>
         Invoked (length pre) \<in> set (trace (generate e req mgr)) \<and>
         (\<forall>ev\<in>set (trace (generate e req mgr)). ev_index ev \<le> length pre)"
proof -
  let ?st = "start_state mgr"
  have s1: "\<forall>m\<in>set pre. ls_stats ?st (provider m) \<noteq> None"
    using st reg by (simp add: start_state_def)
  have d1: "distinct (map provider pre)"
    using dist reg by simp
  from gen_loop_failing_prefix [OF s1 higher d1, of "[]" "p # post"]
  obtain pre' st1 new where
    run: "gen_loop e req [] (pre @ p # post) ?st = gen_loop e req pre' (p # post) st1"
    and len: "length pre' = length pre"
    and ev: "events st1 = new"
    and idx: "\<forall>ev\<in>set new. ev_index ev < length pre"
    and stq: "\<forall>q. ls_stats st1 q =
                (if q \<in> set (failed_providers e req pre)
                 then map_option failure_counted (model_stats mgr q) else model_stats mgr q)"
    by (auto simp: start_state_def)
  have pn: "provider p \<notin> provider ` set pre"
    using dist reg by auto
  then have pnf: "provider p \<notin> set (failed_providers e req pre)"
    by (rule not_failed_provider)
  from st reg obtain c where c0: "model_stats mgr (provider p) = Some c"
    by auto
  with stq pnf have c: "ls_stats st1 (provider p) = Some c"
    by simp
  let ?txt = "PStr (if fix_typos req \<and> text \<noteq> [] then regex_fixes e text else text)"
  let ?st2 = "st1\<lparr>attempted_models := attempted_models st1 @ [name p],
         events := events st1 @ [Invoked (length pre')],
         ls_stats := (ls_stats st1)(provider p \<mapsto> success_counted c)\<rparr>"
  have body: "loop_body e req (length pre') p st1 = (Return ?txt, p, ?st2)"
    by (rule loop_body_text [OF en ok c])
  have loop: "gen_loop e req [] (models mgr) ?st = (Some (Inr ?txt), pre' @ p # post, ?st2)"
    using run body by (simp add: reg)
  have res: "result (generate e req mgr) = Inr ?txt"
    and tr: "trace (generate e req mgr) = new @ [Invoked (length pre)]"
    and fin: "model_stats (after (generate e req mgr)) = (ls_stats st1)(provider p \<mapsto> success_counted c)"
    using loop ev len by (simp_all add: generate_def)
  have a: "\<forall>mi\<in>set pre. is_enabled mi \<and> adapter_error e req mi \<noteq> None \<longrightarrow>
            model_stats (after (generate e req mgr)) (provider mi)
              = map_option failure_counted (model_stats mgr (provider mi))"
  proof (intro ballI impI)
    fix mi assume mi: "mi \<in> set pre" and f: "is_enabled mi \<and> adapter_error e req mi \<noteq> None"
    then have "provider mi \<in> set (failed_providers e req pre)"
      by (auto simp: failed_providers_def)
    moreover have "provider mi \<noteq> provider p"
      using distinct_split_before [of provider pre p post mi] dist reg mi by simp
    ultimately show "model_stats (after (generate e req mgr)) (provider mi)
              = map_option failure_counted (model_stats mgr (provider mi))"
      using stq by (simp add: fin)
  qed
  have b: "model_stats (after (generate e req mgr)) (provider p)
           = map_option success_counted (model_stats mgr (provider p))"
    by (simp add: fin c0)
  have cc: "\<forall>mi\<in>set post.
            model_stats (after (generate e req mgr)) (provider mi) = model_stats mgr (provider mi)"
  proof
    fix mi assume mi: "mi \<in> set post"
    have "provider mi \<notin> provider ` set pre" and "provider mi \<noteq> provider p"
      using distinct_split_after [of provider pre p post mi] dist reg mi by simp_all
    then have "provider mi \<notin> set (failed_providers e req pre)"
      by (simp add: not_failed_provider)
    with \<open>provider mi \<noteq> provider p\<close> show
      "model_stats (after (generate e req mgr)) (provider mi) = model_stats mgr (provider mi)"
      using stq by (simp add: fin)
  qed
  have d: "Invoked (length pre) \<in> set (trace (generate e req mgr))"
    by (simp add: tr)
  have ee: "\<forall>ev\<in>set (trace (generate e req mgr)). ev_index ev \<le> length pre"
    using idx by (auto simp: tr)
  from res a b cc d ee show ?thesis by blast
qed

theorem first_success_is_returned_witness:
  "models initial_manager = [groq_info] @ hf_info # [gemini_info] \<and>
   distinct (map provider (models initial_manager)) \<and>
   is_enabled groq_info \<and>
   adapter_error env_rate_limited req_default groq_info
     = Some (PyException ''Error code: 429 - Rate limit reached'') \<and>
   is_enabled hf_info \<and>
   call_provider env_rate_limited req_default hf_info
     = Some (Inr (PStr ''Paris is the capital of France.'')) \<and>
   result (generate env_rate_limited req_default initial_manager)
     = Inr (PStr ''Paris is the capital of France.'') \<and>
   model_stats (after (generate env_rate_limited req_default initial_manager)) ''groq''
     = Some \<lparr>success = 0, failures = 1\<rparr> \<and>
   model_stats (after (generate env_rate_limited req_default initial_manager)) ''huggingface''
     = Some \<lparr>success = 1, failures = 0\<rparr> \<and>
   model_stats (after (generate env_rate_limited req_default initial_manager)) ''gemini''
     = Some \<lparr>success = 0, failures = 0\<rparr>"
proof -
  let ?out = "generate env_rate_limited req_default initial_manager"
  have reg: "models initial_manager = [groq_info] @ hf_info # [gemini_info]"
    by (simp add: initial_manager_def)
  have st: "\<forall>mi\<in>set (models initial_manager). model_stats initial_manager (provider mi) \<noteq> None"
    by (simp add: registry_defs)
  have dist: "distinct (map provider (models initial_manager))"
    by (simp add: registry_defs)
  have en_g: "is_enabled groq_info"
    by (simp add: is_enabled_def groq_info_def)
  have cp_g: "call_provider env_rate_limited req_default groq_info
                = Some (Inl (PyException ''Error code: 429 - Rate limit reached''))"
    by (simp add: call_provider_def groq_info_def env_rate_limited_def)
  then have ae_g: "adapter_error env_rate_limited req_default groq_info
                = Some (PyException ''Error code: 429 - Rate limit reached'')"
    by (simp add: adapter_error_def)
  have higher: "\<forall>mi\<in>set [groq_info]. is_enabled mi \<longrightarrow>
                  (\<forall>v. call_provider env_rate_limited req_default mi \<noteq> Some (Inr v))"
    by (simp add: cp_g)
  have en: "is_enabled hf_info"
    by (simp add: is_enabled_def hf_info_def)
  have ok: "call_provider env_rate_limited req_default hf_info
              = Some (Inr (PStr ''Paris is the capital of France.''))"
    by (simp add: call_provider_def hf_info_def hf_models_def env_rate_limited_def hf_defs
          ok_response_def generated_def)
  have prov: "provider groq_info = ''groq''" "provider hf_info = ''huggingface''"
    "provider gemini_info = ''gemini''"
    by (simp_all add: groq_info_def hf_info_def gemini_info_def)
  have init: "model_stats initial_manager ''groq'' = Some zero_stats"
    "model_stats initial_manager ''huggingface'' = Some zero_stats"
    "model_stats initial_manager ''gemini'' = Some zero_stats"
    by (simp_all add: initial_manager_def)
  have fx: "fix_typos req_default" "regex_fixes env_rate_limited = (\<lambda>s. s)"
    by (simp_all add: req_default_def env_rate_limited_def)
  note main = first_success_is_returned [OF reg st dist higher en ok]
  from main have r: "result ?out = Inr (PStr ''Paris is the capital of France.'')"
    by (simp add: fx)
  from main en_g ae_g have g: "model_stats (after ?out) ''groq'' = Some \<lparr>success = 0, failures = 1\<rparr>"
    by (simp add: prov init failure_counted_def zero_stats_def)
  from main have h: "model_stats (after ?out) ''huggingface'' = Some \<lparr>success = 1, failures = 0\<rparr>"
    by (simp add: prov init success_counted_def zero_stats_def)
  from main have m: "model_stats (after ?out) ''gemini'' = Some \<lparr>success = 0, failures = 0\<rparr>"
    by (simp add: prov init zero_stats_def)
  from reg dist en_g ae_g en ok r g h m show ?thesis
    by (intro conjI)
qed

section \<open>Disabled entries across calls\<close>

text \<open>
  What one iteration adds to the record of events: only events of its own entry, none for
  a disabled entry, and a classification as permanently unavailable only together with
  the flag set to false.
\<close>

lemma loop_body_events:
  assumes "loop_body e req i mi st = (fl, mi', st')"
  shows "\<exists>new. events st' = events st @ new \<and> (\<forall>ev\<in>set new. ev_index ev = i) \<and>
           (\<not> is_enabled mi \<longrightarrow> new = [] \<and> mi' = mi) \<and>
           (Classified i PermanentlyUnavailable \<in> set new \<longrightarrow> \<not> is_enabled mi')"
proof (cases "is_enabled mi")
  case False
  with assms show ?thesis by (simp add: loop_body_disabled)
next
  case True
  show ?thesis
    using assms True
    unfolding loop_body_def except_handler_def Let_def
    by (auto split: if_splits option.splits sum.splits simp: classify_def is_enabled_def)
qed

text \<open>The loop keeps the entries it has passed and the length of the registry.\<close>

lemma gen_loop_shape:
  "gen_loop e req passed todo st = (r, ms, st') \<Longrightarrow>
   \<exists>ms'. ms = passed @ ms' \<and> length ms' = length todo"
proof (induction todo arbitrary: passed st)
  case Nil
  then show ?case by simp
next
  case (Cons mi rest)
  obtain fl mi' st1 where body: "loop_body e req (length passed) mi st = (fl, mi', st1)"
    by (cases "loop_body e req (length passed) mi st") auto
  show ?case
  proof (cases fl)
    case Continue
    with Cons.prems body have "gen_loop e req (passed @ [mi']) rest st1 = (r, ms, st')"
      by simp
    from Cons.IH [OF this] obtain ms2 where "ms = (passed @ [mi']) @ ms2" "length ms2 = length rest"
      by blast
    then show ?thesis by simp
  next
    case (Return v)
    with Cons.prems body show ?thesis by auto
  next
    case (Raise ex)
    with Cons.prems body show ?thesis by auto
  qed
qed

lemma nth_other_entry:
  "k \<noteq> length xs \<Longrightarrow> (xs @ a # ys) ! k = (xs @ b # ys) ! k"
  by (simp add: nth_append nth_Cons split: nat.split)

text \<open>A disabled entry stays disabled and produces no event.\<close>

lemma gen_loop_keeps_disabled:
  assumes "gen_loop e req passed todo st = (r, ms, st')"
    and "\<not> is_enabled ((passed @ todo) ! k)"
    and "\<forall>ev\<in>set (events st). ev_index ev \<noteq> k"
  shows "\<not> is_enabled (ms ! k) \<and> (\<forall>ev\<in>set (events st'). ev_index ev \<noteq> k)"
  using assms
proof (induction todo arbitrary: passed st)
  case Nil
  then show ?case by simp
next
  case (Cons mi rest)
  obtain fl mi' st1 where body: "loop_body e req (length passed) mi st = (fl, mi', st1)"
    by (cases "loop_body e req (length passed) mi st") auto
  from loop_body_events [OF body] obtain new where
    ev: "events st1 = events st @ new" and idx: "\<forall>ev\<in>set new. ev_index ev = length passed"
    and off: "\<not> is_enabled mi \<longrightarrow> new = [] \<and> mi' = mi"
    by blast
  have same: "\<not> is_enabled ((passed @ mi' # rest) ! k)"
  proof (cases "k = length passed")
    case True
    with Cons.prems(2) have "\<not> is_enabled mi" by simp
    with off True Cons.prems(2) show ?thesis by simp
  next
    case False
    from nth_other_entry [OF this, of mi' rest mi] Cons.prems(2) show ?thesis by simp
  qed
  have quiet: "\<forall>ev\<in>set (events st1). ev_index ev \<noteq> k"
  proof (cases "k = length passed")
    case True
    with Cons.prems(2) have "\<not> is_enabled mi" by simp
    with off ev Cons.prems(3) show ?thesis by simp
  next
    case False
    with ev idx Cons.prems(3) show ?thesis by auto
  qed
  show ?case
  proof (cases fl)
    case Continue
    with Cons.prems(1) body have run: "gen_loop e req (passed @ [mi']) rest st1 = (r, ms, st')"
      by simp
    from same have "\<not> is_enabled (((passed @ [mi']) @ rest) ! k)" by simp
    from Cons.IH [OF run this quiet] show ?thesis .
  next
    case (Return v)
    with Cons.prems(1) body same quiet show ?thesis by auto
  next
    case (Raise ex)
    with Cons.prems(1) body same quiet show ?thesis by auto
  qed
qed

text \<open>An entry classified as permanently unavailable ends the loop disabled.\<close>

lemma gen_loop_unavailable_disabled:
  assumes "gen_loop e req passed todo st = (r, ms, st')"
    and "Classified k PermanentlyUnavailable \<in> set (events st')"
    and "Classified k PermanentlyUnavailable \<notin> set (events st)"
  shows "k < length ms \<and> \<not> is_enabled (ms ! k)"
  using assms
proof (induction todo arbitrary: passed st)
  case Nil
  then show ?case by simp
next
  case (Cons mi rest)
  obtain fl mi' st1 where body: "loop_body e req (length passed) mi st = (fl, mi', st1)"
    by (cases "loop_body e req (length passed) mi st") auto
  from loop_body_events [OF body] obtain new where
    ev: "events st1 = events st @ new" and idx: "\<forall>ev\<in>set new. ev_index ev = length passed"
    and un: "Classified (length passed) PermanentlyUnavailable \<in> set new \<longrightarrow> \<not> is_enabled mi'"
    by blast
  from gen_loop_shape [OF Cons.prems(1)] obtain ms' where
    ms: "ms = passed @ ms'" and len: "length ms' = length (mi # rest)"
    by blast
  have here: "ms ! length passed = mi'"
  proof (cases fl)
    case Continue
    with Cons.prems(1) body have "gen_loop e req (passed @ [mi']) rest st1 = (r, ms, st')"
      by simp
    from gen_loop_shape [OF this] obtain ms2 where "ms = (passed @ [mi']) @ ms2"
      by blast
    then show ?thesis by simp
  next
    case (Return v)
    with Cons.prems(1) body show ?thesis by auto
  next
    case (Raise ex)
    with Cons.prems(1) body show ?thesis by auto
  qed
  show ?case
  proof (cases "Classified k PermanentlyUnavailable \<in> set (events st1)")
    case True
    with ev Cons.prems(3) have in_new: "Classified k PermanentlyUnavailable \<in> set new"
      by simp
    with idx have k: "k = length passed" by force
    with in_new un have "\<not> is_enabled mi'" by simp
    with here k ms len show ?thesis by simp
  next
    case False
    show ?thesis
    proof (cases fl)
      case Continue
      with Cons.prems(1) body have run: "gen_loop e req (passed @ [mi']) rest st1 = (r, ms, st')"
        by simp
      from Cons.IH [OF run Cons.prems(2) False] show ?thesis .
    next
      case (Return v)
      with Cons.prems(1) body have "st' = st1" by auto
      with False Cons.prems(2) show ?thesis by simp
    next
      case (Raise ex)
      with Cons.prems(1) body have "st' = st1" by auto
      with False Cons.prems(2) show ?thesis by simp
    qed
  qed
qed

text \<open>The same facts for a whole call, and for every later call.\<close>

lemma generate_length:
  "length (models (after (generate e req mgr))) = length (models mgr)"
proof -
  obtain r ms st' where run: "gen_loop e req [] (models mgr) (start_state mgr) = (r, ms, st')"
    by (cases "gen_loop e req [] (models mgr) (start_state mgr)") auto
  from gen_loop_shape [OF run] show ?thesis
    using run by (auto simp: generate_def)
qed

lemma generate_keeps_disabled:
  assumes "\<not> is_enabled (models mgr ! k)"
  shows "\<not> is_enabled (models (after (generate e req mgr)) ! k) \<and>
         (\<forall>ev\<in>set (trace (generate e req mgr)). ev_index ev \<noteq> k)"
proof -
  obtain r ms st' where run: "gen_loop e req [] (models mgr) (start_state mgr) = (r, ms, st')"
    by (cases "gen_loop e req [] (models mgr) (start_state mgr)") auto
  have "\<not> is_enabled (([] @ models mgr) ! k)"
    using assms by simp
  moreover have "\<forall>ev\<in>set (events (start_state mgr)). ev_index ev \<noteq> k"
    by (simp add: start_state_def)
  ultimately have "\<not> is_enabled (ms ! k) \<and> (\<forall>ev\<in>set (events st'). ev_index ev \<noteq> k)"
    by (rule gen_loop_keeps_disabled [OF run])
  then show ?thesis
    using run by (simp add: generate_def)
qed

lemma generate_unavailable_disabled:
  assumes "Classified k PermanentlyUnavailable \<in> set (trace (generate e req mgr))"
  shows "k < length (models mgr) \<and> \<not> is_enabled (models (after (generate e req mgr)) ! k)"
proof -
  obtain r ms st' where run: "gen_loop e req [] (models mgr) (start_state mgr) = (r, ms, st')"
    by (cases "gen_loop e req [] (models mgr) (start_state mgr)") auto
  have "Classified k PermanentlyUnavailable \<in> set (events st')"
    using assms run by (simp add: generate_def)
  moreover have "Classified k PermanentlyUnavailable \<notin> set (events (start_state mgr))"
    by (simp add: start_state_def)
  ultimately have "k < length ms \<and> \<not> is_enabled (ms ! k)"
    by (rule gen_loop_unavailable_disabled [OF run])
  moreover have "length ms = length (models mgr)"
    using gen_loop_shape [OF run] by auto
  ultimately show ?thesis
    using run by (simp add: generate_def)
qed

lemma generate_seq_keeps_disabled:
  "\<not> is_enabled (models mgr ! k) \<Longrightarrow>
   \<forall>out\<in>set (generate_seq calls mgr).
      Invoked k \<notin> set (trace out) \<and> \<not> is_enabled (models (after out) ! k)"
proof (induction calls arbitrary: mgr)
  case Nil
  show ?case by simp
next
  case (Cons c calls)
  obtain e req where c: "c = (e, req)" by (cases c)
  from generate_keeps_disabled [OF Cons.prems, of e req]
  have off: "\<not> is_enabled (models (after (generate e req mgr)) ! k)"
    and quiet: "\<forall>ev\<in>set (trace (generate e req mgr)). ev_index ev \<noteq> k"
    by simp_all
  from quiet have "Invoked k \<notin> set (trace (generate e req mgr))"
    by force
  with off Cons.IH [OF off] show ?case
    by (simp add: c Let_def)
qed

text \<open>
  C2.  If a call classifies an error of registry entry \<open>k\<close> as permanently unavailable,
  the entry is disabled when the call ends, and in every sequence of later calls on the
  manager the call leaves behind, whatever the providers would answer, the adapter of
  entry \<open>k\<close> is never invoked and the entry stays disabled.
\<close>

theorem unavailable_is_sticky:
  assumes "Classified k PermanentlyUnavailable \<in> set (trace (generate e req mgr))"
  shows "k < length (models mgr) \<and>
         \<not> is_enabled (models (after (generate e req mgr)) ! k) \<and>
         (\<forall>out\<in>set (generate_seq calls (after (generate e req mgr))).
            Invoked k \<notin> set (trace out) \<and> \<not> is_enabled (models (after out) ! k))"
proof -
  from generate_unavailable_disabled [OF assms]
  have k: "k < length (models mgr)"
    and off: "\<not> is_enabled (models (after (generate e req mgr)) ! k)"
    by simp_all
  from generate_seq_keeps_disabled [OF off, of calls] k off show ?thesis
    by simp
qed

theorem unavailable_is_sticky_witness:
  "Classified 1 PermanentlyUnavailable
     \<in> set (trace (generate env_hf_gone req_default initial_manager)) \<and>
   \<not> is_enabled (models (after (generate env_hf_gone req_default initial_manager)) ! 1) \<and>
   map (\<lambda>out. Invoked 1 \<in> set (trace out))
     (generate_seq [(env_rate_limited, req_default), (env_auth_failure, req_default)]
        (after (generate env_hf_gone req_default initial_manager))) = [False, False]"
proof -
  have h: "Classified 1 PermanentlyUnavailable
             \<in> set (trace (generate env_hf_gone req_default initial_manager))"
    by (simp add: registry_defs gen_defs hf_defs string_defs env_hf_gone_def post_all_gone_def
          req_default_def)
  from unavailable_is_sticky [OF h,
      of "[(env_rate_limited, req_default), (env_auth_failure, req_default)]"] h
  show ?thesis by (simp add: Let_def)
qed

section \<open>Fallback model ids of the Hugging Face adapter\<close>






















section \<open>Counters and invocations\<close>

text \<open>
  One iteration on an entry whose adapter raises or returns a text: the counters of its
  provider go up by the number of invocations the iteration records, no counter is lost.
\<close>

lemma invocations_append:
  "invocations keys q (xs @ ys) = invocations keys q xs + invocations keys q ys"
  by (induction xs rule: invocations.induct) simp_all

lemma loop_body_tally:
  assumes body: "loop_body e req i mi st = (fl, mi', st1)"
    and stats: "ls_stats st (provider mi) \<noteq> None"
    and tx: "is_enabled mi \<longrightarrow> returns_text_only e req mi"
    and key: "i < length keys" "keys ! i = provider mi"
  shows "\<exists>new. events st1 = events st @ new \<and>
           (\<forall>q. tally (ls_stats st1 q) = tally (ls_stats st q) + invocations keys q new) \<and>
           (\<forall>q. ls_stats st q \<noteq> None \<longrightarrow> ls_stats st1 q \<noteq> None)"
proof (cases "is_enabled mi")
  case False
  with body have "st1 = st" by (simp add: loop_body_disabled)
  then show ?thesis by (intro exI [of _ "[]"]) simp
next
  case True
  from stats obtain c where c: "ls_stats st (provider mi) = Some c" by auto
  show ?thesis
  proof (cases "call_provider e req mi")
    case None
    with body True have "st1 = st\<lparr>attempted_models := attempted_models st @ [name mi]\<rparr>"
      by (auto simp: loop_body_skipped)
    then show ?thesis by (intro exI [of _ "[]"]) simp
  next
    case (Some r)
    show ?thesis
    proof (cases r)
      case (Inl ex)
      with Some have cp: "call_provider e req mi = Some (Inl ex)" by simp
      from body loop_body_failed [OF True cp c, of i]
      have st1: "st1 = st\<lparr>attempted_models := attempted_models st @ [name mi],
         ls_stats := (ls_stats st)(provider mi \<mapsto> failure_counted c),
         last_error := Some ex,
         events := events st @ [Invoked i, Classified i (classify (lower (str_exn ex)))]\<rparr>"
        by auto
      show ?thesis
        by (intro exI [of _ "[Invoked i, Classified i (classify (lower (str_exn ex)))]"])
           (simp add: st1 key c tally_def failure_counted_def)
    next
      case (Inr v)
      with Some True tx obtain s where v: "v = PStr s"
        by (cases v) (auto simp: returns_text_only_def is_text_def)
      with Some Inr have cp: "call_provider e req mi = Some (Inr (PStr s))" by simp
      from body loop_body_text [OF True cp c, of i]
      have st1: "st1 = st\<lparr>attempted_models := attempted_models st @ [name mi],
         events := events st @ [Invoked i],
         ls_stats := (ls_stats st)(provider mi \<mapsto> success_counted c)\<rparr>"
        by auto
      show ?thesis
        by (intro exI [of _ "[Invoked i]"])
           (simp add: st1 key c tally_def success_counted_def)
    qed
  qed
qed

text \<open>The loop changes an entry at most by disabling it.\<close>

lemma loop_body_entry:
  "loop_body e req i mi st = (fl, mi', st1) \<Longrightarrow> mi' = mi \<or> mi' = mi\<lparr>enabled := Some False\<rparr>"
  unfolding loop_body_def except_handler_def Let_def
  by (auto split: if_splits option.splits sum.splits)

lemma gen_loop_entries:
  "gen_loop e req passed todo st = (r, ms, st') \<Longrightarrow>
   \<exists>ms'. ms = passed @ ms' \<and>
     list_all2 (\<lambda>a b. b = a \<or> b = a\<lparr>enabled := Some False\<rparr>) todo ms'"
proof (induction todo arbitrary: passed st)
  case Nil
  then show ?case by simp
next
  case (Cons mi rest)
  obtain fl mi' st1 where body: "loop_body e req (length passed) mi st = (fl, mi', st1)"
    by (cases "loop_body e req (length passed) mi st") auto
  note ent = loop_body_entry [OF body]
  show ?case
  proof (cases fl)
    case Continue
    with Cons.prems body have "gen_loop e req (passed @ [mi']) rest st1 = (r, ms, st')"
      by simp
    from Cons.IH [OF this] obtain ms2 where "ms = (passed @ [mi']) @ ms2"
      and "list_all2 (\<lambda>a b. b = a \<or> b = a\<lparr>enabled := Some False\<rparr>) rest ms2"
      by blast
    with ent show ?thesis
      by (intro exI [of _ "mi' # ms2"]) simp
  next
    case (Return v)
    with Cons.prems body have "ms = passed @ mi' # rest" by auto
    with ent show ?thesis
      by (intro exI [of _ "mi' # rest"]) (simp add: list_all2_refl)
  next
    case (Raise ex)
    with Cons.prems body have "ms = passed @ mi' # rest" by auto
    with ent show ?thesis
      by (intro exI [of _ "mi' # rest"]) (simp add: list_all2_refl)
  qed
qed

lemma entries_same_keys:
  "list_all2 (\<lambda>a b. b = a \<or> b = a\<lparr>enabled := Some False\<rparr>) xs ys \<Longrightarrow>
   map provider ys = map provider xs \<and> (\<forall>m\<in>set ys. is_enabled m \<longrightarrow> m \<in> set xs)"
  by (induction xs ys rule: list_all2_induct) (auto simp: is_enabled_def)

text \<open>The same count for the loop and for a call.\<close>

lemma gen_loop_tally:
  assumes "gen_loop e req passed todo st = (r, ms, st')"
    and "map provider (passed @ todo) = keys"
    and "\<forall>m\<in>set todo. ls_stats st (provider m) \<noteq> None"
    and "\<forall>m\<in>set todo. is_enabled m \<longrightarrow> returns_text_only e req m"
  shows "\<exists>new. events st' = events st @ new \<and>
           (\<forall>q. tally (ls_stats st' q) = tally (ls_stats st q) + invocations keys q new) \<and>
           (\<forall>q. ls_stats st q \<noteq> None \<longrightarrow> ls_stats st' q \<noteq> None)"
  using assms
proof (induction todo arbitrary: passed st)
  case Nil
  then show ?case by (intro exI [of _ "[]"]) simp
next
  case (Cons mi rest)
  obtain fl mi' st1 where body: "loop_body e req (length passed) mi st = (fl, mi', st1)"
    by (cases "loop_body e req (length passed) mi st") auto
  have k1: "length passed < length keys" and k2: "keys ! length passed = provider mi"
    using Cons.prems(2) by (auto simp: nth_append)
  from loop_body_tally [OF body _ _ k1 k2] Cons.prems(3,4)
  obtain new1 where ev1: "events st1 = events st @ new1"
    and t1: "\<forall>q. tally (ls_stats st1 q) = tally (ls_stats st q) + invocations keys q new1"
    and d1: "\<forall>q. ls_stats st q \<noteq> None \<longrightarrow> ls_stats st1 q \<noteq> None"
    by auto
  show ?case
  proof (cases fl)
    case Continue
    with Cons.prems(1) body have run: "gen_loop e req (passed @ [mi']) rest st1 = (r, ms, st')"
      by simp
    have "provider mi' = provider mi"
      using loop_body_entry [OF body] by auto
    then have keys: "map provider ((passed @ [mi']) @ rest) = keys"
      using Cons.prems(2) by simp
    have s: "\<forall>m\<in>set rest. ls_stats st1 (provider m) \<noteq> None"
      using Cons.prems(3) d1 by simp
    have t: "\<forall>m\<in>set rest. is_enabled m \<longrightarrow> returns_text_only e req m"
      using Cons.prems(4) by simp
    from Cons.IH [OF run keys s t]
    obtain new2 where ev2: "events st' = events st1 @ new2"
      and t2: "\<forall>q. tally (ls_stats st' q) = tally (ls_stats st1 q) + invocations keys q new2"
      and d2: "\<forall>q. ls_stats st1 q \<noteq> None \<longrightarrow> ls_stats st' q \<noteq> None"
      by blast
    show ?thesis
      by (intro exI [of _ "new1 @ new2"])
         (use ev1 ev2 t1 t2 d1 d2 in \<open>simp add: invocations_append\<close>)
  next
    case (Return v)
    with Cons.prems(1) body have "st' = st1" by auto
    with ev1 t1 d1 show ?thesis by blast
  next
    case (Raise ex)
    with Cons.prems(1) body have "st' = st1" by auto
    with ev1 t1 d1 show ?thesis by blast
  qed
qed

lemma generate_tally:
  assumes stats: "\<forall>mi\<in>set (models mgr). model_stats mgr (provider mi) \<noteq> None"
    and tx: "\<forall>mi\<in>set (models mgr). is_enabled mi \<longrightarrow> returns_text_only e req mi"
  shows "tally (model_stats (after (generate e req mgr)) q)
           = tally (model_stats mgr q)
             + invocations (map provider (models mgr)) q (trace (generate e req mgr))"
    and "map provider (models (after (generate e req mgr))) = map provider (models mgr)"
    and "\<forall>mi\<in>set (models (after (generate e req mgr))).
           model_stats (after (generate e req mgr)) (provider mi) \<noteq> None"
    and "\<forall>mi\<in>set (models (after (generate e req mgr))). is_enabled mi \<longrightarrow> mi \<in> set (models mgr)"
proof -
  obtain r ms st' where run: "gen_loop e req [] (models mgr) (start_state mgr) = (r, ms, st')"
    by (cases "gen_loop e req [] (models mgr) (start_state mgr)") auto
  have out: "after (generate e req mgr) = \<lparr>models = ms, model_stats = ls_stats st'\<rparr>"
    "trace (generate e req mgr) = events st'"
    using run by (simp_all add: generate_def)
  have s0: "\<forall>m\<in>set (models mgr). ls_stats (start_state mgr) (provider m) \<noteq> None"
    using stats by (simp add: start_state_def)
  from gen_loop_tally [OF run _ s0 tx, of "map provider (models mgr)"]
  obtain new where ev: "events st' = new"
    and t: "\<forall>q. tally (ls_stats st' q)
              = tally (model_stats mgr q) + invocations (map provider (models mgr)) q new"
    and d: "\<forall>q. model_stats mgr q \<noteq> None \<longrightarrow> ls_stats st' q \<noteq> None"
    by (auto simp: start_state_def)
  from gen_loop_entries [OF run]
  have ent: "list_all2 (\<lambda>a b. b = a \<or> b = a\<lparr>enabled := Some False\<rparr>) (models mgr) ms"
    by simp
  note same = entries_same_keys [OF ent]
  show "tally (model_stats (after (generate e req mgr)) q)
           = tally (model_stats mgr q)
             + invocations (map provider (models mgr)) q (trace (generate e req mgr))"
    using t ev by (simp add: out)
  show keys: "map provider (models (after (generate e req mgr))) = map provider (models mgr)"
    using same by (simp add: out)
  show "\<forall>mi\<in>set (models (after (generate e req mgr))).
           model_stats (after (generate e req mgr)) (provider mi) \<noteq> None"
  proof
    fix mi assume "mi \<in> set (models (after (generate e req mgr)))"
    then have "provider mi \<in> set (map provider (models (after (generate e req mgr))))"
      by simp
    then have "provider mi \<in> set (map provider (models mgr))"
      by (simp only: keys)
    then obtain m0 where "m0 \<in> set (models mgr)" "provider m0 = provider mi"
      by auto
    with stats d show "model_stats (after (generate e req mgr)) (provider mi) \<noteq> None"
      by (simp add: out) (metis option.distinct(1))
  qed
  show "\<forall>mi\<in>set (models (after (generate e req mgr))). is_enabled mi \<longrightarrow> mi \<in> set (models mgr)"
    using same by (simp add: out)
qed

text \<open>The count over a sequence of calls.\<close>

lemma final_manager_Cons:
  "final_manager mgr (out # outs) = final_manager (after out) outs"
  by (simp add: final_manager_def)

lemma generate_seq_tally:
  assumes "\<forall>mi\<in>set (models mgr). model_stats mgr (provider mi) \<noteq> None"
    and "\<forall>mi\<in>set (models mgr). is_enabled mi \<longrightarrow> mi \<in> set ms0"
    and "\<forall>c\<in>set calls. \<forall>mi\<in>set ms0. returns_text_only (fst c) (snd c) mi"
  shows "tally (model_stats (final_manager mgr (generate_seq calls mgr)) q)
           = tally (model_stats mgr q)
             + invocations (map provider (models mgr)) q
                 (concat (map trace (generate_seq calls mgr)))"
  using assms
proof (induction calls arbitrary: mgr)
  case Nil
  show ?case by (simp add: final_manager_def)
next
  case (Cons c calls)
  obtain e req where c: "c = (e, req)" by (cases c)
  let ?out = "generate e req mgr"
  have tx: "\<forall>mi\<in>set (models mgr). is_enabled mi \<longrightarrow> returns_text_only e req mi"
    using Cons.prems(2,3) by (auto simp: c)
  note g = generate_tally [OF Cons.prems(1) tx]
  have inv: "\<forall>mi\<in>set (models (after ?out)). is_enabled mi \<longrightarrow> mi \<in> set ms0"
    using g(4) Cons.prems(2) by blast
  have rest: "\<forall>c\<in>set calls. \<forall>mi\<in>set ms0. returns_text_only (fst c) (snd c) mi"
    using Cons.prems(3) by simp
  from Cons.IH [OF g(3) inv rest]
  have "tally (model_stats (final_manager (after ?out) (generate_seq calls (after ?out))) q)
          = tally (model_stats (after ?out) q)
            + invocations (map provider (models mgr)) q
                (concat (map trace (generate_seq calls (after ?out))))"
    by (simp add: g(2))
  with g(1) [of q] show ?case
    by (simp add: c Let_def final_manager_Cons invocations_append)
qed

lemma concat_trace_quiet:
  "\<forall>out\<in>set outs. Invoked k \<notin> set (trace out) \<Longrightarrow>
   Invoked k \<notin> set (concat (map trace outs))"
  by (induction outs) simp_all

text \<open>
  C5.  Let every entry of the registry have its counters, and let the adapters, in every
  call of a sequence, raise or return a text.  Then for every provider key the sum of the
  success counter and the failure counter after the sequence is the sum before it (0 in a
  manager that has just been constructed) plus the number of adapter invocations, over all
  the calls, at entries with that key.  The count is of invocations by \<^verbatim>\<open>generate\<close>: what the
  Hugging Face adapter posts inside one invocation does not enter it.  An entry that is
  disabled is not invoked in any of the calls.
\<close>

theorem counters_count_invocations:
  assumes "\<forall>mi\<in>set (models mgr). model_stats mgr (provider mi) \<noteq> None"
    and "\<forall>c\<in>set calls. \<forall>mi\<in>set (models mgr). returns_text_only (fst c) (snd c) mi"
  shows "tally (model_stats (final_manager mgr (generate_seq calls mgr)) q)
           = tally (model_stats mgr q)
             + invocations (map provider (models mgr)) q
                 (concat (map trace (generate_seq calls mgr))) \<and>
         (\<forall>k. \<not> is_enabled (models mgr ! k) \<longrightarrow>
              Invoked k \<notin> set (concat (map trace (generate_seq calls mgr))))"
proof
  show "tally (model_stats (final_manager mgr (generate_seq calls mgr)) q)
           = tally (model_stats mgr q)
             + invocations (map provider (models mgr)) q
                 (concat (map trace (generate_seq calls mgr)))"
    by (rule generate_seq_tally [OF assms(1) _ assms(2)]) simp
  show "\<forall>k. \<not> is_enabled (models mgr ! k) \<longrightarrow>
              Invoked k \<notin> set (concat (map trace (generate_seq calls mgr)))"
  proof (intro allI impI)
    fix k assume "\<not> is_enabled (models mgr ! k)"
    from generate_seq_keeps_disabled [OF this, of calls]
    show "Invoked k \<notin> set (concat (map trace (generate_seq calls mgr)))"
      by (intro concat_trace_quiet) simp
  qed
qed

theorem counters_count_invocations_witness:
  "map (\<lambda>q. tally (model_stats initial_manager q)) [''groq'', ''huggingface'', ''gemini'']
     = [0, 0, 0] \<and>
   concat (map trace (generate_seq [(env_hf_gone, req_default), (env_rate_limited, req_default)]
                        initial_manager))
     = [Invoked 0, Classified 0 Retryable, Invoked 1, Classified 1 PermanentlyUnavailable,
        Invoked 2, Invoked 0, Classified 0 Retryable, Invoked 2] \<and>
   map (\<lambda>q. tally (model_stats
                 (final_manager initial_manager
                    (generate_seq [(env_hf_gone, req_default), (env_rate_limited, req_default)]
                       initial_manager)) q))
     [''groq'', ''huggingface'', ''gemini''] = [2, 1, 2]"
proof -
  let ?calls = "[(env_hf_gone, req_default), (env_rate_limited, req_default)]"
  have s: "\<forall>mi\<in>set (models initial_manager). model_stats initial_manager (provider mi) \<noteq> None"
    by (simp add: registry_defs)
  have t: "\<forall>c\<in>set ?calls. \<forall>mi\<in>set (models initial_manager).
             returns_text_only (fst c) (snd c) mi"
    by (simp add: returns_text_only_def is_text_def call_provider_def registry_defs hf_defs
          env_hf_gone_def post_all_gone_def env_rate_limited_def ok_response_def generated_def
          req_default_def)
  have z: "map (\<lambda>q. tally (model_stats initial_manager q)) [''groq'', ''huggingface'', ''gemini'']
     = [0, 0, 0]"
    by (simp add: tally_def registry_defs)
  have tr: "concat (map trace (generate_seq ?calls initial_manager))
     = [Invoked 0, Classified 0 Retryable, Invoked 1, Classified 1 PermanentlyUnavailable,
        Invoked 2, Invoked 0, Classified 0 Retryable, Invoked 2]"
    by (simp add: registry_defs gen_defs hf_defs string_defs env_hf_gone_def post_all_gone_def
          env_rate_limited_def ok_response_def generated_def req_default_def)
  have keys: "map provider (models initial_manager) = [''groq'', ''huggingface'', ''gemini'']"
    by (simp add: registry_defs)
  note main = counters_count_invocations [OF s t]
  have "tally (model_stats (final_manager initial_manager (generate_seq ?calls initial_manager)) ''groq'') = 2"
    and "tally (model_stats (final_manager initial_manager (generate_seq ?calls initial_manager)) ''huggingface'') = 1"
    and "tally (model_stats (final_manager initial_manager (generate_seq ?calls initial_manager)) ''gemini'') = 2"
    using main [of "''groq''", THEN conjunct1, unfolded tr keys]
      main [of "''huggingface''", THEN conjunct1, unfolded tr keys]
      main [of "''gemini''", THEN conjunct1, unfolded tr keys] z
    by simp_all
  with z tr show ?thesis by simp
qed

section \<open>The normalizer on the success path\<close>




end
